theory Spec2Isabelle
  imports Main
begin

section \<open>Host-language strings\<close>

text \<open>
  A Python \<open>str\<close> is modelled as a \<^typ>\<open>string\<close>: a list of characters with code points
  below 256. On that range the character classes below are the ones of Python 3:
  \<open>str.strip\<close> and the regex class \<open>\s\<close> share one set of white space, \<open>\w\<close> is the set
  of alphanumeric characters and the underscore, and case-insensitive matching of an
  ASCII letter only identifies it with its other ASCII case.
\<close>

abbreviation DQ :: char where "DQ \<equiv> CHR 0x22"
abbreviation SQ :: char where "SQ \<equiv> CHR 0x27"
abbreviation BS :: char where "BS \<equiv> CHR 0x5C"
abbreviation NL :: char where "NL \<equiv> CHR 0x0A"

definition isspace :: "char \<Rightarrow> bool" where
  "isspace c = (c \<in> set [CHR 0x09, CHR 0x0A, CHR 0x0B, CHR 0x0C, CHR 0x0D,
                           CHR 0x1C, CHR 0x1D, CHR 0x1E, CHR 0x1F, CHR 0x20,
                           CHR 0x85, CHR 0xA0])"

definition is_upper :: "char \<Rightarrow> bool" where
  "is_upper c = (65 \<le> (of_char c :: nat) \<and> (of_char c :: nat) \<le> 90)"

definition is_lower :: "char \<Rightarrow> bool" where
  "is_lower c = (97 \<le> (of_char c :: nat) \<and> (of_char c :: nat) \<le> 122)"

definition is_digit :: "char \<Rightarrow> bool" where
  "is_digit c = (48 \<le> (of_char c :: nat) \<and> (of_char c :: nat) \<le> 57)"

text \<open>The class \<open>[A-Za-z_]\<close> and the class \<open>[A-Za-z0-9_]\<close> of the identifier patterns.\<close>

definition ident_start :: "char \<Rightarrow> bool" where
  "ident_start c = (is_upper c \<or> is_lower c \<or> c = CHR ''_'')"

definition ident_char :: "char \<Rightarrow> bool" where
  "ident_char c = (ident_start c \<or> is_digit c)"

text \<open>The class \<open>\w\<close>, which decides the word boundary \<open>\b\<close>.\<close>

definition is_word :: "char \<Rightarrow> bool" where
  "is_word c = (ident_char c \<or>
     (of_char c :: nat) \<in> set [170, 178, 179, 181, 185, 186, 188, 189, 190] \<or>
     (192 \<le> (of_char c :: nat) \<and> (of_char c :: nat) \<noteq> 215 \<and> (of_char c :: nat) \<noteq> 247))"

definition lower_ch :: "char \<Rightarrow> char" where
  "lower_ch c =
     (if is_upper c then ''abcdefghijklmnopqrstuvwxyz'' ! ((of_char c :: nat) - 65) else c)"

definition rstrip :: "string \<Rightarrow> string" where
  "rstrip s = rev (dropWhile isspace (rev s))"

definition strip :: "string \<Rightarrow> string" where
  "strip s = rstrip (dropWhile isspace s)"

text \<open>\<open>s.startswith(p)\<close>, and the same test ignoring case (a literal under \<open>re.I\<close>).\<close>

definition startswith :: "string \<Rightarrow> string \<Rightarrow> bool" where
  "startswith p s = (take (length p) s = p)"

definition startswith_ci :: "string \<Rightarrow> string \<Rightarrow> bool" where
  "startswith_ci p s = (length p \<le> length s \<and> map lower_ch (take (length p) s) = map lower_ch p)"

text \<open>\<open>tok in s\<close>, and \<open>s.partition(tok)\<close>: the split at the first occurrence of \<open>tok\<close>,
  or \<open>(s, '', '')\<close> when there is none.\<close>

fun str_in :: "string \<Rightarrow> string \<Rightarrow> bool" where
  "str_in tok [] = (tok = [])"
| "str_in tok (c # cs) = (startswith tok (c # cs) \<or> str_in tok cs)"

fun partition_str :: "string \<Rightarrow> string \<Rightarrow> string \<times> string \<times> string" where
  "partition_str tok [] = ([], [], [])"
| "partition_str tok (c # cs) =
     (if startswith tok (c # cs) then ([], tok, drop (length tok) (c # cs))
      else (case partition_str tok cs of (h, sep, t) \<Rightarrow> (c # h, sep, t)))"

text \<open>\<open>s.replace(old, new)\<close> for a non-empty \<open>old\<close>: the occurrences are replaced from left
  to right, without overlap.\<close>

function replace_str :: "string \<Rightarrow> string \<Rightarrow> string \<Rightarrow> string" where
  "replace_str old new [] = []"
| "replace_str old new (c # cs) =
     (if old \<noteq> [] \<and> startswith old (c # cs)
      then new @ replace_str old new (drop (length old) (c # cs))
      else c # replace_str old new cs)"
  by pat_completeness auto
termination
  by (relation "measure (\<lambda>(old, new, s). length s)") (auto simp: startswith_def)

text \<open>\<open>sep.join(xs)\<close>.\<close>

fun join_str :: "string \<Rightarrow> string list \<Rightarrow> string" where
  "join_str sep [] = []"
| "join_str sep [x] = x"
| "join_str sep (x # y # ys) = x @ sep @ join_str sep (y # ys)"

text \<open>\<open>str(n)\<close> for a natural number.\<close>

definition digit_ch :: "nat \<Rightarrow> char" where
  "digit_ch d = ''0123456789'' ! d"

fun str_nat :: "nat \<Rightarrow> string" where
  "str_nat n = (if n < 10 then [digit_ch n] else str_nat (n div 10) @ [digit_ch (n mod 10)])"

section \<open>The comment stripper\<close>

text \<open>
  \<open>_strip_comment\<close>: for each of the two markers in turn, when the marker occurs in the
  line, the text before its first occurrence is returned, right-trimmed, if it holds an
  even number of double quotes and an even number of single quotes.
\<close>

fun strip_comment_loop :: "string list \<Rightarrow> string \<Rightarrow> string" where
  "strip_comment_loop [] line = line"
| "strip_comment_loop (tok # toks) line =
     (if str_in tok line then
        (case partition_str tok line of (head, sep, tail) \<Rightarrow>
           if count_list head DQ mod 2 = 0 \<and> count_list head SQ mod 2 = 0
           then rstrip head
           else strip_comment_loop toks line)
      else strip_comment_loop toks line)"

definition strip_comment :: "string \<Rightarrow> string" where
  "strip_comment line = strip_comment_loop [''#'', ''//''] line"

section \<open>The expression rewriter\<close>

text \<open>
  \<open>re.sub(r'\bPHRASE\b', repl, s, flags=re.I)\<close> for a phrase of ASCII letters and spaces:
  the scan goes from left to right and \<open>prev\<close> is the character before the position
  (none at the start). A position matches when the phrase is there, ignoring case, with
  a word boundary before it and a word boundary after it; the scan goes on after the
  match.
\<close>

definition word_opt :: "char option \<Rightarrow> bool" where
  "word_opt c = (case c of None \<Rightarrow> False | Some x \<Rightarrow> is_word x)"

definition boundary :: "char option \<Rightarrow> char option \<Rightarrow> bool" where
  "boundary l r = (word_opt l \<noteq> word_opt r)"

definition nth_opt :: "string \<Rightarrow> nat \<Rightarrow> char option" where
  "nth_opt s i = (if i < length s then Some (s ! i) else None)"

definition phrase_at :: "string \<Rightarrow> char option \<Rightarrow> string \<Rightarrow> bool" where
  "phrase_at phrase prev s =
     (phrase \<noteq> [] \<and> startswith_ci phrase s \<and>
      boundary prev (nth_opt s 0) \<and>
      boundary (nth_opt s (length phrase - 1)) (nth_opt s (length phrase)))"

function re_sub_word :: "string \<Rightarrow> string \<Rightarrow> char option \<Rightarrow> string \<Rightarrow> string" where
  "re_sub_word phrase repl prev [] = []"
| "re_sub_word phrase repl prev (c # cs) =
     (if phrase_at phrase prev (c # cs)
      then repl @ re_sub_word phrase repl (nth_opt (c # cs) (length phrase - 1))
                    (drop (length phrase) (c # cs))
      else c # re_sub_word phrase repl (Some c) cs)"
  by pat_completeness auto
termination
  by (relation "measure (\<lambda>(phrase, repl, prev, s). length s)") (auto simp: phrase_at_def)

definition WORD_OPS :: "(string \<times> string) list" where
  "WORD_OPS = [('' plus '', '' + ''), ('' minus '', '' - ''),
               ('' times '', '' * ''), ('' over '', '' / '')]"

definition LITERALS :: "(string \<times> string) list" where
  "LITERALS = [('' true '', '' True ''), ('' false '', '' False ''), ('' null '', '' None '')]"

definition COMPARATORS :: "(string \<times> string) list" where
  "COMPARATORS = [(''is at least'', ''>=''), (''is at most'', ''<=''),
                  (''is greater than'', ''>''), (''is less than'', ''<''),
                  (''equals'', ''==''), (''not equals'', ''!='')]"

definition tx_expr :: "string \<Rightarrow> string" where
  "tx_expr expr =
     (let s = '' '' @ expr @ '' '';
          s = fold (\<lambda>(w, rep) s. replace_str w rep s) WORD_OPS s;
          s = fold (\<lambda>(pat, repl) s. re_sub_word pat repl None s) COMPARATORS s;
          s = fold (\<lambda>(w, lit) s. replace_str w lit s) LITERALS s
      in strip s)"

section \<open>The patterns of the line classifier\<close>

text \<open>
  Each pattern of \<open>_compile_line\<close> is written with the combinators below, in
  continuation-passing style: a combinator takes what follows it in the pattern, a
  function from the text still to be matched to the result of the match, and tries its
  own alternatives in the order of a backtracking matcher, the longest first for a
  greedy quantifier and the shortest first for a lazy one. The first alternative on
  which the rest of the pattern succeeds is the match.
\<close>

primrec try_down :: "(nat \<Rightarrow> 'a option) \<Rightarrow> nat \<Rightarrow> 'a option" where
  "try_down f 0 = f 0"
| "try_down f (Suc n) = (case f (Suc n) of Some r \<Rightarrow> Some r | None \<Rightarrow> try_down f n)"

text \<open>A greedy run of at least \<open>lo\<close> characters of a class; the run is handed to the rest.\<close>

definition greedy :: "(char \<Rightarrow> bool) \<Rightarrow> nat \<Rightarrow> (string \<Rightarrow> string \<Rightarrow> 'a option) \<Rightarrow> string \<Rightarrow> 'a option" where
  "greedy cls lo k s =
     try_down (\<lambda>i. if lo \<le> i then k (take i s) (drop i s) else None)
       (length (takeWhile cls s))"

text \<open>A lazy run of a class: \<open>acc\<close> is the run so far.\<close>

fun lazy_star :: "(char \<Rightarrow> bool) \<Rightarrow> (string \<Rightarrow> string \<Rightarrow> 'a option) \<Rightarrow> string \<Rightarrow> string \<Rightarrow> 'a option" where
  "lazy_star cls k acc [] = k acc []"
| "lazy_star cls k acc (c # cs) =
     (case k acc (c # cs) of
        Some r \<Rightarrow> Some r
      | None \<Rightarrow> if cls c then lazy_star cls k (acc @ [c]) cs else None)"

definition lazy_plus :: "(char \<Rightarrow> bool) \<Rightarrow> (string \<Rightarrow> string \<Rightarrow> 'a option) \<Rightarrow> string \<Rightarrow> 'a option" where
  "lazy_plus cls k s =
     (case s of [] \<Rightarrow> None | c # cs \<Rightarrow> if cls c then lazy_star cls k [c] cs else None)"

text \<open>The dot matches every character but the newline.\<close>

definition dot :: "char \<Rightarrow> bool" where
  "dot c = (c \<noteq> NL)"

definition lit_ci :: "string \<Rightarrow> (string \<Rightarrow> 'a option) \<Rightarrow> string \<Rightarrow> 'a option" where
  "lit_ci p k s = (if startswith_ci p s then k (drop (length p) s) else None)"

definition opt_re :: "((string \<Rightarrow> 'a option) \<Rightarrow> string \<Rightarrow> 'a option) \<Rightarrow> (string \<Rightarrow> 'a option) \<Rightarrow> string \<Rightarrow> 'a option" where
  "opt_re p k s = (case p k s of Some r \<Rightarrow> Some r | None \<Rightarrow> k s)"

definition alt_re :: "(string \<Rightarrow> 'a option) \<Rightarrow> (string \<Rightarrow> 'a option) \<Rightarrow> string \<Rightarrow> 'a option" where
  "alt_re p q s = (case p s of Some r \<Rightarrow> Some r | None \<Rightarrow> q s)"

text \<open>\<open>$\<close>: the end of the text, or the place before a newline that ends it.\<close>

definition eol :: "'a \<Rightarrow> string \<Rightarrow> 'a option" where
  "eol r s = (if s = [] \<or> s = [NL] then Some r else None)"

text \<open>\<open>[A-Za-z_][A-Za-z0-9_]*\<close>, as a group.\<close>

definition ident :: "(string \<Rightarrow> string \<Rightarrow> 'a option) \<Rightarrow> string \<Rightarrow> 'a option" where
  "ident k s =
     (case s of [] \<Rightarrow> None
      | c # cs \<Rightarrow> if ident_start c then greedy ident_char 0 (\<lambda>w. k (c # w)) cs else None)"

text \<open>\<open>(?::\s*|\s*)$\<close>, the optional colon that ends a block header.\<close>

definition tail_colon :: "'a \<Rightarrow> string \<Rightarrow> 'a option" where
  "tail_colon r =
     alt_re (lit_ci '':'' (greedy isspace 0 (\<lambda>_. eol r))) (greedy isspace 0 (\<lambda>_. eol r))"

text \<open>\<open>re.fullmatch(r'end', line, flags=re.I)\<close>\<close>

definition re_end :: "string \<Rightarrow> bool" where
  "re_end line = (map lower_ch line = ''end'')"

text \<open>\<open>^say:\s*(.*)$\<close>\<close>

definition re_say_f :: "string \<Rightarrow> string option" where
  "re_say_f = lit_ci ''say:'' (greedy isspace 0 (\<lambda>_. greedy dot 0 (\<lambda>g1. eol g1)))"

text \<open>\<open>^say\s+(.+)$\<close>\<close>

definition re_say :: "string \<Rightarrow> string option" where
  "re_say = lit_ci ''say'' (greedy isspace 1 (\<lambda>_. greedy dot 1 (\<lambda>g1. eol g1)))"

text \<open>\<open>^if\s+(.+?)\s+then\s+(.+)$\<close>\<close>

definition re_if_then :: "string \<Rightarrow> (string \<times> string) option" where
  "re_if_then =
     lit_ci ''if'' (greedy isspace 1 (\<lambda>_. lazy_plus dot (\<lambda>g1.
       greedy isspace 1 (\<lambda>_. lit_ci ''then'' (greedy isspace 1 (\<lambda>_.
         greedy dot 1 (\<lambda>g2. eol (g1, g2))))))))"

text \<open>\<open>^if\s+(.+?)(?::\s*|\s*)$\<close>\<close>

definition re_if :: "string \<Rightarrow> string option" where
  "re_if = lit_ci ''if'' (greedy isspace 1 (\<lambda>_. lazy_plus dot (\<lambda>g1. tail_colon g1)))"

text \<open>\<open>^repeat\s+(.+?)\s+times(?:\s+do)?(?::\s*|\s*)$\<close>\<close>

definition re_repeat :: "string \<Rightarrow> string option" where
  "re_repeat =
     lit_ci ''repeat'' (greedy isspace 1 (\<lambda>_. lazy_plus dot (\<lambda>g1.
       greedy isspace 1 (\<lambda>_. lit_ci ''times''
         (opt_re (\<lambda>k. greedy isspace 1 (\<lambda>_. lit_ci ''do'' k)) (tail_colon g1))))))"

text \<open>\<open>^def\s+([A-Za-z_][A-Za-z0-9_]*)\s*(.*?)(?::\s*|\s*)$\<close>\<close>

definition re_def :: "string \<Rightarrow> (string \<times> string) option" where
  "re_def =
     lit_ci ''def'' (greedy isspace 1 (\<lambda>_. ident (\<lambda>g1.
       greedy isspace 0 (\<lambda>_. lazy_star dot (\<lambda>g2. tail_colon (g1, g2)) []))))"

text \<open>\<open>^return\s+(.+)$\<close>\<close>

definition re_return :: "string \<Rightarrow> string option" where
  "re_return = lit_ci ''return'' (greedy isspace 1 (\<lambda>_. greedy dot 1 (\<lambda>g1. eol g1)))"

text \<open>\<open>^([A-Za-z_][A-Za-z0-9_]*)\s+is\s+(.+)$\<close>\<close>

definition re_assign :: "string \<Rightarrow> (string \<times> string) option" where
  "re_assign =
     ident (\<lambda>g1. greedy isspace 1 (\<lambda>_. lit_ci ''is'' (greedy isspace 1 (\<lambda>_.
       greedy dot 1 (\<lambda>g2. eol (g1, g2))))))"

text \<open>\<open>s.split()\<close>: the maximal runs of characters that are not white space.\<close>

fun split_acc :: "string \<Rightarrow> string \<Rightarrow> string list" where
  "split_acc cur [] = (if cur = [] then [] else [cur])"
| "split_acc cur (c # cs) =
     (if isspace c then (if cur = [] then split_acc [] cs else cur # split_acc [] cs)
      else split_acc (cur @ [c]) cs)"

definition split_ws :: "string \<Rightarrow> string list" where
  "split_ws s = split_acc [] s"

text \<open>\<open>s.splitlines()\<close>: a line ends at a line boundary (\<open>\r\n\<close> is one boundary); the
  text after the last boundary is a line when it is not empty.\<close>

definition linebreak :: "char \<Rightarrow> bool" where
  "linebreak c = (c \<in> set [CHR 0x0A, CHR 0x0B, CHR 0x0C, CHR 0x0D,
                             CHR 0x1C, CHR 0x1D, CHR 0x1E, CHR 0x85])"

fun splitlines_acc :: "string \<Rightarrow> string \<Rightarrow> string list" where
  "splitlines_acc cur [] = (if cur = [] then [] else [cur])"
| "splitlines_acc cur [c] = (if linebreak c then [cur] else [cur @ [c]])"
| "splitlines_acc cur (c # d # cs) =
     (if c = CHR 0x0D \<and> d = CHR 0x0A then cur # splitlines_acc [] cs
      else if linebreak c then cur # splitlines_acc [] (d # cs)
      else splitlines_acc (cur @ [c]) (d # cs))"

definition splitlines :: "string \<Rightarrow> string list" where
  "splitlines s = splitlines_acc [] s"

section \<open>What a successful match leaves to match\<close>

text \<open>
  A combinator hands a suffix of its text to the rest of the pattern, so a group is never
  longer than the line. The line classifier recurses on a group: this is its termination.
\<close>

lemma try_down_SomeD: "try_down f n = Some r \<Longrightarrow> \<exists>i\<le>n. f i = Some r"
  by (induction n) (auto split: option.splits intro: le_SucI)

lemma greedyE:
  assumes "greedy cls lo k s = Some r"
  obtains g s' where "s = g @ s'" and "lo \<le> length g" and "k g s' = Some r"
proof -
  from assms obtain i where i: "i \<le> length (takeWhile cls s)"
      and r: "(if lo \<le> i then k (take i s) (drop i s) else None) = Some r"
    unfolding greedy_def by (blast dest: try_down_SomeD)
  have "length (takeWhile cls s) \<le> length s" by (rule length_takeWhile_le)
  with i have "length (take i s) = i" by simp
  moreover from r have "lo \<le> i" "k (take i s) (drop i s) = Some r" by (auto split: if_splits)
  moreover have "s = take i s @ drop i s" by simp
  ultimately show thesis using that by metis
qed

lemma lazy_star_SomeD:
  "lazy_star cls k acc s = Some r \<Longrightarrow> \<exists>g s'. s = g @ s' \<and> k (acc @ g) s' = Some r"
proof (induction s arbitrary: acc)
  case Nil
  then show ?case by simp
next
  case (Cons c cs)
  show ?case
  proof (cases "k acc (c # cs)")
    case (Some r')
    with Cons.prems have "c # cs = [] @ (c # cs) \<and> k (acc @ []) (c # cs) = Some r" by simp
    then show ?thesis by blast
  next
    case None
    with Cons.prems have "lazy_star cls k (acc @ [c]) cs = Some r" by (simp split: if_splits)
    from Cons.IH [OF this] obtain g s' where "cs = g @ s'" "k ((acc @ [c]) @ g) s' = Some r"
      by blast
    then have "c # cs = (c # g) @ s' \<and> k (acc @ (c # g)) s' = Some r" by simp
    then show ?thesis by blast
  qed
qed

lemma lazy_starE:
  assumes "lazy_star cls k acc s = Some r"
  obtains g s' where "s = g @ s'" and "k (acc @ g) s' = Some r"
  using lazy_star_SomeD [OF assms] by blast

lemma lazy_plusE:
  assumes "lazy_plus cls k s = Some r"
  obtains g s' where "s = g @ s'" and "g \<noteq> []" and "k g s' = Some r"
proof -
  from assms obtain c cs where s: "s = c # cs" and l: "lazy_star cls k [c] cs = Some r"
    by (auto simp: lazy_plus_def split: list.splits if_splits)
  from l obtain g s' where "cs = g @ s'" "k ([c] @ g) s' = Some r" by (rule lazy_starE)
  with s have "s = (c # g) @ s'" "c # g \<noteq> []" "k (c # g) s' = Some r" by simp_all
  then show thesis by (rule that)
qed

lemma lit_ciE:
  assumes "lit_ci p k s = Some r"
  obtains l s' where "s = l @ s'" and "length l = length p" and "k s' = Some r"
proof -
  from assms have "length p \<le> length s" "k (drop (length p) s) = Some r"
    by (auto simp: lit_ci_def startswith_ci_def split: if_splits)
  then have "s = take (length p) s @ drop (length p) s" "length (take (length p) s) = length p"
    by simp_all
  with \<open>k (drop (length p) s) = Some r\<close> show thesis using that by blast
qed

lemma eol_SomeD: "eol x s = Some r \<Longrightarrow> r = x"
  by (auto simp: eol_def split: if_splits)

lemma re_if_then_shorter:
  assumes "re_if_then line = Some (cond, stmt)"
  shows "length stmt < length line"
  using assms unfolding re_if_then_def
  by (auto elim!: lit_ciE greedyE lazy_plusE dest!: eol_SomeD)

lemma length_rstrip_le: "length (rstrip s) \<le> length s"
proof -
  have "length (dropWhile isspace (rev s)) \<le> length (rev s)" by (rule length_dropWhile_le)
  then show ?thesis by (simp add: rstrip_def)
qed

lemma length_strip_le: "length (strip s) \<le> length s"
proof -
  have "length (rstrip (dropWhile isspace s)) \<le> length (dropWhile isspace s)"
    by (rule length_rstrip_le)
  also have "\<dots> \<le> length s" by (rule length_dropWhile_le)
  finally show ?thesis by (simp add: strip_def)
qed

lemma length_partition_head_le: "length (fst (partition_str tok s)) \<le> length s"
  by (induction s) (auto split: prod.splits)

lemma length_strip_comment_loop_le: "length (strip_comment_loop toks line) \<le> length line"
proof (induction toks)
  case Nil
  then show ?case by simp
next
  case (Cons tok toks)
  have "length (rstrip (fst (partition_str tok line))) \<le> length line"
    using length_rstrip_le [of "fst (partition_str tok line)"]
      length_partition_head_le [of tok line] by linarith
  with Cons show ?case by (auto split: prod.splits)
qed

lemma length_strip_comment_le: "length (strip_comment line) \<le> length line"
  by (simp only: strip_comment_def length_strip_comment_loop_le)

lemma inline_stmt_shorter:
  assumes "re_if_then (strip_comment (strip raw)) = Some (cond, stmt)"
  shows "length (strip stmt) < length raw"
proof -
  have "length (strip stmt) \<le> length stmt" by (rule length_strip_le)
  also have "\<dots> < length (strip_comment (strip raw))" using assms by (rule re_if_then_shorter)
  also have "\<dots> \<le> length (strip raw)" by (rule length_strip_comment_le)
  also have "\<dots> \<le> length raw" by (rule length_strip_le)
  finally show ?thesis .
qed

section \<open>The compiler\<close>

text \<open>
  The fields of a \<open>MonthyCompiler\<close>. \<open>indent\<close> is a Python integer; \<open>stack\<close> grows at its
  end (\<open>append\<close>) and shrinks there (\<open>pop\<close>).
\<close>

record MonthyCompiler =
  indent_unit :: string
  lines :: "string list"
  indent :: int
  stack :: "string list"

text \<open>The exceptions that a call of the compiler raises, with their messages: the two
  \<open>raise\<close> of the code, the \<open>IndexError\<close> of \<open>pop\<close> on an empty list, and the
  \<open>RecursionError\<close> of the interpreter.\<close>

datatype exn = SyntaxError string | IndexError string | RecursionError string

definition new_compiler :: "string \<Rightarrow> MonthyCompiler" where
  "new_compiler unit = \<lparr>indent_unit = unit, lines = [], indent = 0, stack = []\<rparr>"

text \<open>\<open>_emit\<close>; a string times an integer that is not positive is the empty string.\<close>

definition emit :: "string \<Rightarrow> MonthyCompiler \<Rightarrow> MonthyCompiler" where
  "emit s st = st\<lparr>lines := lines st @ [concat (replicate (nat (indent st)) (indent_unit st)) @ s]\<rparr>"

text \<open>\<open>_say_f\<close>: the backslashes are doubled first, then a backslash goes before each
  double quote.\<close>

definition say_f :: "string \<Rightarrow> MonthyCompiler \<Rightarrow> MonthyCompiler" where
  "say_f inner st =
     (let inner = tx_expr inner;
          inner = replace_str [DQ] [BS, DQ] (replace_str [BS] [BS, BS] inner)
      in emit (''print(f'' @ [DQ] @ inner @ [DQ] @ '')'') st)"

definition push_block :: "string \<Rightarrow> MonthyCompiler \<Rightarrow> MonthyCompiler" where
  "push_block kind st = st\<lparr>indent := indent st + 1, stack := stack st @ [kind]\<rparr>"

definition pop_block :: "MonthyCompiler \<Rightarrow> MonthyCompiler" where
  "pop_block st = st\<lparr>stack := butlast (stack st), indent := indent st - 1\<rparr>"

definition unexpected_end_msg :: string where
  "unexpected_end_msg = [SQ] @ ''end'' @ [SQ] @ '' with no open block''"

definition pop_empty_msg :: string where
  "pop_empty_msg = ''pop from empty list''"

definition recursion_msg :: string where
  "recursion_msg = ''maximum recursion depth exceeded''"

definition missing_end_msg :: string where
  "missing_end_msg = ''Missing '' @ [SQ] @ ''end'' @ [SQ] @ '' for: ''"

text \<open>
  \<open>_compile_line\<close>. The result is the exception raised, if any, and the compiler as the
  call leaves it: what was emitted, pushed or popped before a \<open>raise\<close> stays. The
  \<open>pop\<close> that closes an inline conditional raises \<open>IndexError\<close> on an empty stack, before
  the indent is decremented.

  The method calls itself once for each inline conditional of a chain, and the
  interpreter bounds the nesting of calls. \<open>depth\<close> is the number of activations of
  \<open>_compile_line\<close> that can still run nested in the one at hand. It depends on the
  recursion limit, on where \<open>compile\<close> is called from and on the frames that the calls
  of the \<open>re\<close> module take, none of which the program fixes, so it is a parameter. An
  activation for which no room is left raises \<open>RecursionError\<close> before it changes the
  compiler: on entry, or in one of the calls it makes itself (\<open>re.match\<close>, \<open>_tx_expr\<close>),
  which all come before its first change to the compiler. So with \<open>depth = 0\<close> the
  recursive call raises: the header of the conditional is emitted and its block pushed,
  and nothing pops it. The activation at hand is taken to have room for the calls it
  makes itself.
\<close>

function compile_line :: "nat \<Rightarrow> string \<Rightarrow> MonthyCompiler \<Rightarrow> exn option \<times> MonthyCompiler" where
  "compile_line depth raw st =
     (let line = strip raw in
      if line = [] then (None, st)
      else let line = strip_comment line in
      if line = [] then (None, st)
      else if re_end line then
        (if stack st = [] then (Some (SyntaxError unexpected_end_msg), st)
         else (None, pop_block st))
      else case re_say_f line of
        Some inner \<Rightarrow> (None, say_f inner st)
      | None \<Rightarrow>
      (case re_say line of
        Some e \<Rightarrow> (None, emit (''print('' @ tx_expr e @ '')'') st)
      | None \<Rightarrow>
      (case re_if_then line of
        Some (cond, stmt) \<Rightarrow>
          if depth = 0
          then (Some (RecursionError recursion_msg),
                push_block ''if'' (emit (''if '' @ tx_expr cond @ '':'') st))
          else
          (case compile_line (depth - 1) (strip stmt)
                  (push_block ''if'' (emit (''if '' @ tx_expr cond @ '':'') st)) of
             (Some e, st') \<Rightarrow> (Some e, st')
           | (None, st') \<Rightarrow>
               if stack st' = [] then (Some (IndexError pop_empty_msg), st')
               else (None, pop_block st'))
      | None \<Rightarrow>
      (case re_if line of
        Some cond \<Rightarrow> (None, push_block ''if'' (emit (''if '' @ tx_expr cond @ '':'') st))
      | None \<Rightarrow>
      (case re_repeat line of
        Some n \<Rightarrow>
          (None, push_block ''repeat'' (emit (''for _ in range(int('' @ tx_expr n @ '')):'') st))
      | None \<Rightarrow>
      (case re_def line of
        Some (name, args) \<Rightarrow>
          (None, push_block ''def''
             (emit (''def '' @ name @ ''('' @ join_str '', '' (split_ws (strip args)) @ ''):'') st))
      | None \<Rightarrow>
      (case re_return line of
        Some e \<Rightarrow> (None, emit (''return '' @ tx_expr e) st)
      | None \<Rightarrow>
      (case re_assign line of
        Some (name, e) \<Rightarrow> (None, emit (name @ '' = '' @ tx_expr e) st)
      | None \<Rightarrow> (None, emit raw st)))))))))"
  by pat_completeness auto
termination
  by (relation "measure (\<lambda>(depth, raw, st). length raw)") (auto dest: inline_stmt_shorter)

declare compile_line.simps [simp del]

text \<open>\<open>filename or '<string>'\<close>, then the place \<open>f"{filename}:{idx}"\<close>.\<close>

definition filename_label :: "string option \<Rightarrow> string" where
  "filename_label filename =
     (case filename of None \<Rightarrow> ''<string>'' | Some f \<Rightarrow> if f = [] then ''<string>'' else f)"

definition where_label :: "string option \<Rightarrow> nat \<Rightarrow> string" where
  "where_label filename idx = filename_label filename @ '':'' @ str_nat idx"

text \<open>\<open>type(e)(f"{e} (at {where})")\<close>\<close>

fun decorate :: "exn \<Rightarrow> string \<Rightarrow> exn" where
  "decorate (SyntaxError m) place = SyntaxError (m @ '' (at '' @ place @ '')'')"
| "decorate (IndexError m) place = IndexError (m @ '' (at '' @ place @ '')'')"
| "decorate (RecursionError m) place = RecursionError (m @ '' (at '' @ place @ '')'')"

text \<open>The loop of \<open>compile\<close> over the numbered lines: it stops at the first line that
  raises.\<close>

fun run_lines :: "nat \<Rightarrow> string option \<Rightarrow> nat \<Rightarrow> string list \<Rightarrow> MonthyCompiler \<Rightarrow> exn option \<times> MonthyCompiler" where
  "run_lines depth filename idx [] st = (None, st)"
| "run_lines depth filename idx (raw # rest) st =
     (case compile_line depth raw st of
        (Some e, st') \<Rightarrow> (Some (decorate e (where_label filename idx)), st')
      | (None, st') \<Rightarrow> run_lines depth filename (Suc idx) rest st')"

text \<open>\<open>compile\<close>: the text returned or the exception raised, and the compiler after the
  call. \<open>depth\<close> is what the interpreter admits under each call of \<open>_compile_line\<close> in the
  loop.\<close>

definition compile :: "nat \<Rightarrow> MonthyCompiler \<Rightarrow> string \<Rightarrow> string option \<Rightarrow> (exn + string) \<times> MonthyCompiler" where
  "compile depth self source filename =
     (case run_lines depth filename 1 (splitlines source) (self\<lparr>lines := [], indent := 0, stack := []\<rparr>) of
        (Some e, st) \<Rightarrow> (Inl e, st)
      | (None, st) \<Rightarrow>
          if stack st \<noteq> [] then (Inl (SyntaxError (missing_end_msg @ join_str '' > '' (stack st))), st)
          else (Inr (join_str [NL] (lines st) @ [NL]), st))"

section \<open>The shape of a line\<close>

text \<open>
  What \<open>_compile_line\<close> does with a line, as a value: the same tests in the same order,
  with the text to emit. \<open>compile_line_shape\<close> below states that the compiler does exactly
  what the shape says. An inline conditional carries the statement that the recursive
  call receives.
\<close>

datatype shape = Blank | End | Emit string | Open_block string string | IfThen string string

definition say_f_text :: "string \<Rightarrow> string" where
  "say_f_text inner =
     ''print(f'' @ [DQ] @ replace_str [DQ] [BS, DQ] (replace_str [BS] [BS, BS] (tx_expr inner)) @ [DQ] @ '')''"

definition shape_of :: "string \<Rightarrow> shape" where
  "shape_of raw =
     (let line = strip raw in
      if line = [] then Blank
      else let line = strip_comment line in
      if line = [] then Blank
      else if re_end line then End
      else case re_say_f line of
        Some inner \<Rightarrow> Emit (say_f_text inner)
      | None \<Rightarrow>
      (case re_say line of
        Some e \<Rightarrow> Emit (''print('' @ tx_expr e @ '')'')
      | None \<Rightarrow>
      (case re_if_then line of
        Some (cond, stmt) \<Rightarrow> IfThen (''if '' @ tx_expr cond @ '':'') (strip stmt)
      | None \<Rightarrow>
      (case re_if line of
        Some cond \<Rightarrow> Open_block ''if'' (''if '' @ tx_expr cond @ '':'')
      | None \<Rightarrow>
      (case re_repeat line of
        Some n \<Rightarrow> Open_block ''repeat'' (''for _ in range(int('' @ tx_expr n @ '')):'')
      | None \<Rightarrow>
      (case re_def line of
        Some (name, args) \<Rightarrow>
          Open_block ''def'' (''def '' @ name @ ''('' @ join_str '', '' (split_ws (strip args)) @ ''):'')
      | None \<Rightarrow>
      (case re_return line of
        Some e \<Rightarrow> Emit (''return '' @ tx_expr e)
      | None \<Rightarrow>
      (case re_assign line of
        Some (name, e) \<Rightarrow> Emit (name @ '' = '' @ tx_expr e)
      | None \<Rightarrow> Emit raw))))))))"

lemma compile_line_shape:
  "compile_line depth raw st =
     (case shape_of raw of
        Blank \<Rightarrow> (None, st)
      | End \<Rightarrow> if stack st = [] then (Some (SyntaxError unexpected_end_msg), st) else (None, pop_block st)
      | Emit out \<Rightarrow> (None, emit out st)
      | Open_block kind header \<Rightarrow> (None, push_block kind (emit header st))
      | IfThen header stmt \<Rightarrow>
          if depth = 0
          then (Some (RecursionError recursion_msg), push_block ''if'' (emit header st))
          else
          (case compile_line (depth - 1) stmt (push_block ''if'' (emit header st)) of
             (Some e, st') \<Rightarrow> (Some e, st')
           | (None, st') \<Rightarrow>
               if stack st' = [] then (Some (IndexError pop_empty_msg), st')
               else (None, pop_block st')))"
  by (subst compile_line.simps)
     (simp add: shape_of_def Let_def say_f_def say_f_text_def split: option.splits prod.splits)

lemma shape_IfThen_shorter: "shape_of raw = IfThen header stmt \<Longrightarrow> length stmt < length raw"
  by (auto simp: shape_of_def Let_def split: if_splits option.splits prod.splits dest: inline_stmt_shorter)

function innermost :: "string \<Rightarrow> shape" where
  "innermost raw = (case shape_of raw of IfThen header stmt \<Rightarrow> innermost stmt | s \<Rightarrow> s)"
  by pat_completeness auto
termination
  by (relation "measure length") (auto dest: shape_IfThen_shorter)

text \<open>The statement at the end of a chain of inline conditionals.\<close>

definition plain :: "shape \<Rightarrow> bool" where
  "plain s = (case s of Blank \<Rightarrow> True | Emit out \<Rightarrow> True | _ \<Rightarrow> False)"

text \<open>The length of the chain of inline conditionals of a line: the number of
  activations of \<open>_compile_line\<close> that the line needs under the first one.\<close>

function inline_depth :: "string \<Rightarrow> nat" where
  "inline_depth raw = (case shape_of raw of IfThen header stmt \<Rightarrow> Suc (inline_depth stmt) | _ \<Rightarrow> 0)"
  by pat_completeness auto
termination
  by (relation "measure length") (auto dest: shape_IfThen_shorter)

section \<open>Fields after each step\<close>

lemma emit_fields [simp]:
  "indent (emit s st) = indent st" "stack (emit s st) = stack st"
  "indent_unit (emit s st) = indent_unit st"
  by (simp_all add: emit_def)

lemma push_block_fields [simp]:
  "indent (push_block k st) = indent st + 1" "stack (push_block k st) = stack st @ [k]"
  "indent_unit (push_block k st) = indent_unit st" "lines (push_block k st) = lines st"
  by (simp_all add: push_block_def)

lemma pop_block_fields [simp]:
  "indent (pop_block st) = indent st - 1" "stack (pop_block st) = butlast (stack st)"
  "indent_unit (pop_block st) = indent_unit st" "lines (pop_block st) = lines st"
  by (simp_all add: pop_block_def)

lemma compile_line_indent_unit: "indent_unit (snd (compile_line depth raw st)) = indent_unit st"
proof (induction raw arbitrary: st depth rule: measure_induct_rule [where f = length])
  case (less raw)
  show ?case
  proof (cases "shape_of raw")
    case (IfThen header stmt)
    then have "length stmt < length raw" by (rule shape_IfThen_shorter)
    from less.IH [OF this, of "depth - 1" "push_block ''if'' (emit header st)"] IfThen
    show ?thesis
      by (subst compile_line_shape) (auto split: prod.splits option.splits)
  qed (simp_all add: compile_line_shape)
qed

text \<open>A line whose innermost statement is plain: when the call returns, the blocks are as
  before; and it returns when the interpreter admits the chain.\<close>

lemma plain_line_result:
  assumes "plain (innermost raw)" and "fst (compile_line depth raw st) = None"
  shows "stack (snd (compile_line depth raw st)) = stack st
         \<and> indent (snd (compile_line depth raw st)) = indent st"
  using assms
proof (induction raw arbitrary: st depth rule: measure_induct_rule [where f = length])
  case (less raw)
  show ?case
  proof (cases "shape_of raw")
    case Blank
    then show ?thesis by (simp add: compile_line_shape)
  next
    case End
    with less.prems show ?thesis by (simp add: plain_def)
  next
    case (Emit out)
    then show ?thesis by (simp add: compile_line_shape)
  next
    case (Open_block kind header)
    with less.prems show ?thesis by (simp add: plain_def)
  next
    case (IfThen header stmt)
    let ?st1 = "push_block ''if'' (emit header st)"
    obtain r st' where res: "compile_line (depth - 1) stmt ?st1 = (r, st')"
      by (cases "compile_line (depth - 1) stmt ?st1")
    from less.prems(2) IfThen have d: "depth \<noteq> 0"
      by (cases "depth = 0") (simp_all add: compile_line_shape)
    with less.prems(2) IfThen res have r: "r = None" by (cases r) (simp_all add: compile_line_shape)
    have "length stmt < length raw" using IfThen by (rule shape_IfThen_shorter)
    moreover have "plain (innermost stmt)" using less.prems(1) IfThen by simp
    moreover have "fst (compile_line (depth - 1) stmt ?st1) = None" using res r by simp
    ultimately have "stack (snd (compile_line (depth - 1) stmt ?st1)) = stack ?st1
         \<and> indent (snd (compile_line (depth - 1) stmt ?st1)) = indent ?st1"
      by (rule less.IH)
    with res have "stack st' = stack st @ [''if'']" "indent st' = indent st + 1" by simp_all
    with IfThen res r d show ?thesis by (simp add: compile_line_shape)
  qed
qed

lemma plain_line_returns:
  assumes "plain (innermost raw)" and "inline_depth raw \<le> depth"
  shows "fst (compile_line depth raw st) = None"
  using assms
proof (induction raw arbitrary: st depth rule: measure_induct_rule [where f = length])
  case (less raw)
  show ?case
  proof (cases "shape_of raw")
    case Blank
    then show ?thesis by (simp add: compile_line_shape)
  next
    case End
    with less.prems show ?thesis by (simp add: plain_def)
  next
    case (Emit out)
    then show ?thesis by (simp add: compile_line_shape)
  next
    case (Open_block kind header)
    with less.prems show ?thesis by (simp add: plain_def)
  next
    case (IfThen header stmt)
    let ?st1 = "push_block ''if'' (emit header st)"
    obtain r st' where res: "compile_line (depth - 1) stmt ?st1 = (r, st')"
      by (cases "compile_line (depth - 1) stmt ?st1")
    from less.prems(2) IfThen have d: "depth \<noteq> 0" and d': "inline_depth stmt \<le> depth - 1" by simp_all
    have len: "length stmt < length raw" using IfThen by (rule shape_IfThen_shorter)
    have pl: "plain (innermost stmt)" using less.prems(1) IfThen by simp
    have none: "fst (compile_line (depth - 1) stmt ?st1) = None" using len pl d' by (rule less.IH)
    with res have r: "r = None" by simp
    from plain_line_result [OF pl none] res have "stack st' = stack st @ [''if'']" by simp
    with IfThen res r d show ?thesis by (simp add: compile_line_shape)
  qed
qed

lemma plain_line_keeps_blocks:
  assumes "plain (innermost raw)" and "inline_depth raw \<le> depth"
  shows "fst (compile_line depth raw st) = None
         \<and> stack (snd (compile_line depth raw st)) = stack st
         \<and> indent (snd (compile_line depth raw st)) = indent st"
  using plain_line_returns [OF assms] plain_line_result [OF assms(1)] by blast

section \<open>Inputs with matching block lines\<close>

text \<open>
  \<open>well_nested d ls\<close>: read as brackets, with \<open>d\<close> blocks open before them, the lines that
  open a block (block \<open>if\<close>, \<open>repeat\<close>, \<open>def\<close>) and the \<open>end\<close> lines of \<open>ls\<close> match. Every
  other line, an inline conditional too, counts for nothing. \<open>inline_plain\<close> holds of
  a line unless it is an inline conditional whose innermost statement is an \<open>end\<close> or
  opens a block.
\<close>

fun well_nested :: "nat \<Rightarrow> string list \<Rightarrow> bool" where
  "well_nested d [] = (d = 0)"
| "well_nested d (raw # rest) =
     (case shape_of raw of
        End \<Rightarrow> 0 < d \<and> well_nested (d - 1) rest
      | Open_block kind header \<Rightarrow> well_nested (Suc d) rest
      | _ \<Rightarrow> well_nested d rest)"

definition inline_plain :: "string \<Rightarrow> bool" where
  "inline_plain raw = (case shape_of raw of IfThen header stmt \<Rightarrow> plain (innermost stmt) | _ \<Rightarrow> True)"

text \<open>
  The blocks that the lines of an input leave open, read off the input alone: with the
  kinds \<open>bs\<close> open before them, outermost first, a line that opens a block adds its kind
  at the end, an \<open>end\<close> line closes the last one, and every other line counts for
  nothing. The kinds are listed in the order of the lines that opened them.
\<close>

fun open_blocks :: "string list \<Rightarrow> string list \<Rightarrow> string list" where
  "open_blocks bs [] = bs"
| "open_blocks bs (raw # rest) =
     (case shape_of raw of
        End \<Rightarrow> open_blocks (butlast bs) rest
      | Open_block kind header \<Rightarrow> open_blocks (bs @ [kind]) rest
      | _ \<Rightarrow> open_blocks bs rest)"

definition balanced_example :: string where
  "balanced_example = ''def f x'' @ [NL] @ ''if x then say x'' @ [NL] @ ''end'' @ [NL]"

definition stray_inline_end :: string where
  "stray_inline_end = ''def f'' @ [NL] @ ''if x then end'' @ [NL] @ ''end'' @ [NL]"

definition three_open :: string where
  "three_open = ''def f'' @ [NL] @ ''if x'' @ [NL] @ ''say 1'' @ [NL] @ ''end'' @ [NL]
                 @ ''repeat 3 times'' @ [NL] @ ''if y'' @ [NL]"

lemma run_lines_well_nested:
  assumes "well_nested (length (stack st)) ls" and "list_all inline_plain ls"
    and "list_all (\<lambda>raw. inline_depth raw \<le> depth) ls"
    and "indent st = int (length (stack st))"
  shows "\<exists>st'. run_lines depth fn i ls st = (None, st') \<and> stack st' = [] \<and> indent st' = 0"
  using assms
proof (induction ls arbitrary: st i)
  case Nil
  then show ?case by simp
next
  case (Cons raw rest)
  obtain r st1 where res: "compile_line depth raw st = (r, st1)"
    by (cases "compile_line depth raw st")
  have step: "r = None \<and> well_nested (length (stack st1)) rest \<and> indent st1 = int (length (stack st1))"
  proof (cases "shape_of raw")
    case Blank
    with Cons.prems res show ?thesis by (auto simp: compile_line_shape)
  next
    case End
    with Cons.prems res show ?thesis by (cases "stack st") (auto simp: compile_line_shape)
  next
    case (Emit out)
    with Cons.prems res show ?thesis by (auto simp: compile_line_shape)
  next
    case (Open_block kind header)
    with Cons.prems res show ?thesis by (auto simp: compile_line_shape)
  next
    case (IfThen header stmt)
    with Cons.prems have "plain (innermost raw)" by (simp add: inline_plain_def)
    moreover have "inline_depth raw \<le> depth" using Cons.prems by simp
    ultimately have "fst (compile_line depth raw st) = None
         \<and> stack (snd (compile_line depth raw st)) = stack st
         \<and> indent (snd (compile_line depth raw st)) = indent st"
      by (rule plain_line_keeps_blocks)
    with IfThen Cons.prems res show ?thesis by simp
  qed
  moreover have "list_all inline_plain rest" "list_all (\<lambda>raw. inline_depth raw \<le> depth) rest"
    using Cons.prems by simp_all
  ultimately obtain st' where "run_lines depth fn (Suc i) rest st1 = (None, st')"
      "stack st' = []" "indent st' = 0"
    using Cons.IH [of st1 "Suc i"] by blast
  with res step show ?case by simp
qed

text \<open>When the loop returns on an input whose inline conditionals are plain, the block
  stack is the list that \<open>open_blocks\<close> reads off the input.\<close>

lemma run_lines_open_blocks:
  assumes "run_lines depth fn i ls st = (None, st')" and "list_all inline_plain ls"
  shows "stack st' = open_blocks (stack st) ls"
  using assms
proof (induction ls arbitrary: st i)
  case Nil
  then show ?case by simp
next
  case (Cons raw rest)
  obtain r st1 where res: "compile_line depth raw st = (r, st1)"
    by (cases "compile_line depth raw st")
  with Cons.prems(1) have r: "r = None" and run: "run_lines depth fn (Suc i) rest st1 = (None, st')"
    by (cases r; simp)+
  from Cons.prems(2) have rest: "list_all inline_plain rest" by simp
  have ih: "stack st' = open_blocks (stack st1) rest" using run rest by (rule Cons.IH)
  show ?case
  proof (cases "shape_of raw")
    case Blank
    with res ih show ?thesis by (simp add: compile_line_shape)
  next
    case End
    with res r ih show ?thesis by (cases "stack st = []") (auto simp: compile_line_shape)
  next
    case (Emit out)
    with res ih show ?thesis by (auto simp: compile_line_shape)
  next
    case (Open_block kind header)
    with res ih show ?thesis by (auto simp: compile_line_shape)
  next
    case (IfThen header stmt)
    with Cons.prems(2) have "plain (innermost raw)" by (simp add: inline_plain_def)
    moreover have "fst (compile_line depth raw st) = None" using res r by simp
    ultimately have "stack (snd (compile_line depth raw st)) = stack st
        \<and> indent (snd (compile_line depth raw st)) = indent st"
      by (rule plain_line_result)
    with res have "stack st1 = stack st" by simp
    with IfThen ih show ?thesis by simp
  qed
qed

lemma open_blocks_append: "open_blocks bs (ls @ ms) = open_blocks (open_blocks bs ls) ms"
  by (induction ls arbitrary: bs) (simp_all split: shape.splits)

text \<open>A block opened later is listed later: the list is outermost first.\<close>

lemma open_blocks_opener_last:
  "shape_of raw = Open_block kind header \<Longrightarrow> open_blocks bs (ls @ [raw]) = open_blocks bs ls @ [kind]"
  by (simp add: open_blocks_append)

lemma run_lines_append:
  "run_lines depth fn i (pre @ post) st =
     (case run_lines depth fn i pre st of
        (Some e, st') \<Rightarrow> (Some e, st')
      | (None, st') \<Rightarrow> run_lines depth fn (i + length pre) post st')"
  by (induction pre arbitrary: i st) (auto split: prod.splits option.splits)

lemma re_end_shape:
  assumes "re_end (strip_comment (strip raw))"
  shows "shape_of raw = End"
proof -
  from assms have ne: "strip_comment (strip raw) \<noteq> []" by (auto simp: re_end_def)
  have "strip_comment [] = []" by (simp add: strip_comment_def)
  with ne have "strip raw \<noteq> []" by auto
  with ne assms show ?thesis by (simp add: shape_of_def Let_def)
qed

lemma run_lines_indent_unit: "indent_unit (snd (run_lines depth fn i ls st)) = indent_unit st"
proof (induction ls arbitrary: i st)
  case Nil
  then show ?case by simp
next
  case (Cons raw rest)
  obtain r st1 where res: "compile_line depth raw st = (r, st1)"
    by (cases "compile_line depth raw st")
  then have "indent_unit st1 = indent_unit st" using compile_line_indent_unit [of depth raw st] by simp
  with res Cons.IH [of "Suc i" st1] show ?case by (cases r) simp_all
qed

lemma compile_indent_unit: "indent_unit (snd (compile depth self source filename)) = indent_unit self"
proof -
  let ?st0 = "self\<lparr>lines := [], indent := 0, stack := []\<rparr>"
  obtain r st where res: "run_lines depth filename 1 (splitlines source) ?st0 = (r, st)"
    by (cases "run_lines depth filename 1 (splitlines source) ?st0")
  then have "indent_unit st = indent_unit self"
    using run_lines_indent_unit [of depth filename 1 "splitlines source" ?st0] by simp
  with res show ?thesis by (cases r) (simp_all add: compile_def)
qed

lemma reset_is_new: "self\<lparr>lines := [], indent := 0, stack := []\<rparr> = new_compiler (indent_unit self)"
  by (simp add: new_compiler_def)

lemma compile_from_new:
  "compile depth self source filename = compile depth (new_compiler (indent_unit self)) source filename"
proof -
  have "new_compiler (indent_unit self)\<lparr>lines := [], indent := 0, stack := []\<rparr>
            = self\<lparr>lines := [], indent := 0, stack := []\<rparr>"
    by (simp add: new_compiler_def)
  then show ?thesis by (simp only: compile_def)
qed

section \<open>Occurrences of a marker\<close>

lemma startswith_split: "startswith tok s \<Longrightarrow> s = tok @ drop (length tok) s"
proof -
  assume "startswith tok s"
  then have "take (length tok) s = tok" by (simp add: startswith_def)
  then have "take (length tok) s @ drop (length tok) s = tok @ drop (length tok) s" by simp
  then show ?thesis by simp
qed

lemma partition_str_split:
  "str_in tok s \<Longrightarrow> partition_str tok s = (h, sep, t) \<Longrightarrow> sep = tok \<and> s = h @ tok @ t"
proof (induction s arbitrary: h sep t)
  case Nil
  then show ?case by simp
next
  case (Cons c cs)
  show ?case
  proof (cases "startswith tok (c # cs)")
    case True
    with Cons.prems(2) have "h = []" "sep = tok" "t = drop (length tok) (c # cs)" by auto
    with startswith_split [OF True] show ?thesis by simp
  next
    case False
    with Cons.prems(1) have in_cs: "str_in tok cs" by simp
    obtain h' sep' t' where p: "partition_str tok cs = (h', sep', t')"
      by (cases "partition_str tok cs")
    with False Cons.prems(2) have "h = c # h'" "sep = sep'" "t = t'" by simp_all
    with Cons.IH [OF in_cs p] show ?thesis by simp
  qed
qed

lemma strip_comment_loop_cases:
  "strip_comment_loop toks line \<noteq> line \<Longrightarrow>
     \<exists>tok head tail. tok \<in> set toks \<and> line = head @ tok @ tail
        \<and> even (count_list head DQ) \<and> even (count_list head SQ)
        \<and> strip_comment_loop toks line = rstrip head"
proof (induction toks)
  case Nil
  then show ?case by simp
next
  case (Cons tok toks)
  obtain h sep t where p: "partition_str tok line = (h, sep, t)" by (cases "partition_str tok line")
  show ?case
  proof (cases "str_in tok line \<and> even (count_list h DQ) \<and> even (count_list h SQ)")
    case True
    with p have "line = h @ tok @ t" by (simp add: partition_str_split)
    moreover from True p have "strip_comment_loop (tok # toks) line = rstrip h"
      by (simp add: even_iff_mod_2_eq_zero)
    ultimately have "tok \<in> set (tok # toks) \<and> line = h @ tok @ t
        \<and> even (count_list h DQ) \<and> even (count_list h SQ)
        \<and> strip_comment_loop (tok # toks) line = rstrip h"
      using True by simp
    then show ?thesis by blast
  next
    case False
    with p have eq: "strip_comment_loop (tok # toks) line = strip_comment_loop toks line"
      by (auto simp: even_iff_mod_2_eq_zero)
    with Cons.prems have "strip_comment_loop toks line \<noteq> line" by simp
    from Cons.IH [OF this] obtain tok' head tail where
      "tok' \<in> set toks" "line = head @ tok' @ tail"
      "even (count_list head DQ)" "even (count_list head SQ)"
      "strip_comment_loop toks line = rstrip head"
      by blast
    with eq have "tok' \<in> set (tok # toks) \<and> line = head @ tok' @ tail
        \<and> even (count_list head DQ) \<and> even (count_list head SQ)
        \<and> strip_comment_loop (tok # toks) line = rstrip head"
      by simp
    then show ?thesis by blast
  qed
qed

lemma str_in_single: "str_in [c] s \<longleftrightarrow> c \<in> set s"
  by (induction s) (auto simp: startswith_def)

lemma startswith_str_in: "startswith tok s \<Longrightarrow> str_in tok s"
  by (cases s) (simp_all add: startswith_def)

lemma str_in_middle: "str_in tok (head @ tok @ tail)"
proof (induction head)
  case Nil
  have "startswith tok (tok @ tail)" by (simp add: startswith_def)
  then show ?case by (simp add: startswith_str_in)
next
  case (Cons c head)
  then show ?case by simp
qed

lemma partition_str_first:
  assumes "tok \<noteq> []" and "\<not> str_in tok (head @ butlast tok)"
  shows "partition_str tok (head @ tok @ tail) = (head, tok, tail)"
  using assms(2)
proof (induction head)
  case Nil
  have "startswith tok (tok @ tail)" by (simp add: startswith_def)
  with assms(1) show ?case by (cases tok) (simp_all add: startswith_def)
next
  case (Cons c head)
  from Cons.prems have ns: "\<not> startswith tok (c # head @ butlast tok)" and rest: "\<not> str_in tok (head @ butlast tok)"
    by simp_all
  define A where "A = c # head @ butlast tok"
  define B where "B = last tok # tail"
  have len: "length tok \<le> length A" by (simp add: A_def)
  have "butlast tok @ [last tok] = tok" using assms(1) by (rule append_butlast_last_id)
  then have "(c # head @ butlast tok) @ (last tok # tail) = c # head @ tok @ tail"
    by (metis append.assoc append_Cons append_Nil)
  then have split: "c # head @ tok @ tail = A @ B" by (simp only: A_def B_def)
  have "take (length tok) (A @ B) = take (length tok) A" using len by simp
  with split have "take (length tok) (c # head @ tok @ tail) = take (length tok) (c # head @ butlast tok)"
    by (simp only: A_def)
  with ns have "\<not> startswith tok (c # head @ tok @ tail)" by (simp add: startswith_def)
  with Cons.IH [OF rest] show ?case by simp
qed

text \<open>The line \<open>say "a # b"\<close>.\<close>

definition quoted_hash :: string where
  "quoted_hash = ''say '' @ [DQ] @ ''a # b'' @ [DQ]"

text \<open>The line \<open>say "a # b" # c\<close>: its second \<open>#\<close> follows two double quotes.\<close>

definition later_hash :: string where
  "later_hash = ''say '' @ [DQ] @ ''a # b'' @ [DQ] @ '' # c''"

lemma marker_fails:
  assumes "tok \<noteq> []" and "\<not> str_in tok (head @ butlast tok)"
    and "\<not> (even (count_list head DQ) \<and> even (count_list head SQ))"
  shows "strip_comment_loop (tok # toks) (head @ tok @ tail) = strip_comment_loop toks (head @ tok @ tail)"
proof -
  have "partition_str tok (head @ tok @ tail) = (head, tok, tail)"
    using assms(1,2) by (rule partition_str_first)
  with assms(3) show ?thesis by (auto simp: even_iff_mod_2_eq_zero)
qed

text \<open>
  The test of \<open>_strip_comment\<close> on the text before a marker, and the first occurrence of
  a marker: the line begins with \<open>head\<close> and the marker, and the marker does not occur
  earlier. \<open>fails_at\<close>: the first occurrence of the marker fails the test.
\<close>

definition quotes_closed :: "string \<Rightarrow> bool" where
  "quotes_closed head = (count_list head DQ mod 2 = 0 \<and> count_list head SQ mod 2 = 0)"

definition first_at :: "string \<Rightarrow> string \<Rightarrow> string \<Rightarrow> bool" where
  "first_at tok head line = (startswith (head @ tok) line \<and> \<not> str_in tok (head @ butlast tok))"

definition fails_at :: "string \<Rightarrow> string \<Rightarrow> string \<Rightarrow> bool" where
  "fails_at tok head line = (first_at tok head line \<and> \<not> quotes_closed head)"

text \<open>The line \<open>say "a # b" // c # d\<close>.\<close>

definition hash_then_slashes :: string where
  "hash_then_slashes = ''say '' @ [DQ] @ ''a # b'' @ [DQ] @ '' // c # d''"

lemma first_at_partition:
  assumes "first_at tok head line" and "tok \<noteq> []"
  shows "partition_str tok line = (head, tok, drop (length head + length tok) line)"
    and "str_in tok line"
proof -
  let ?tail = "drop (length head + length tok) line"
  from assms(1) have "startswith (head @ tok) line" by (simp add: first_at_def)
  then have "line = (head @ tok) @ drop (length (head @ tok)) line" by (rule startswith_split)
  then have line: "line = head @ tok @ ?tail" by simp
  from assms(1) have "\<not> str_in tok (head @ butlast tok)" by (simp add: first_at_def)
  with assms(2) have "partition_str tok (head @ tok @ ?tail) = (head, tok, ?tail)"
    by (rule partition_str_first)
  with line show "partition_str tok line = (head, tok, ?tail)" by simp
  have "str_in tok (head @ tok @ ?tail)" by (rule str_in_middle)
  with line show "str_in tok line" by simp
qed

lemma loop_step_fails:
  assumes "fails_at tok head line" and "tok \<noteq> []"
  shows "strip_comment_loop (tok # toks) line = strip_comment_loop toks line"
proof -
  from assms have "first_at tok head line" and nq: "\<not> quotes_closed head"
    by (simp_all add: fails_at_def)
  from first_at_partition [OF this(1) assms(2)] nq show ?thesis
    by (auto simp: quotes_closed_def)
qed

lemma loop_step_passes:
  assumes "first_at tok head line" and "quotes_closed head" and "tok \<noteq> []"
  shows "strip_comment_loop (tok # toks) line = rstrip head"
  using first_at_partition [OF assms(1,3)] assms(2) by (simp add: quotes_closed_def)

lemma loop_step_absent:
  "\<not> str_in tok line \<Longrightarrow> strip_comment_loop (tok # toks) line = strip_comment_loop toks line"
  by simp

lemma hash_step:
  assumes "CHR ''#'' \<notin> set line \<or> fails_at ''#'' h1 line"
  shows "strip_comment line = strip_comment_loop [''//''] line"
proof -
  from assms have "strip_comment_loop (''#'' # [''//'']) line = strip_comment_loop [''//''] line"
  proof
    assume "CHR ''#'' \<notin> set line"
    then have "\<not> str_in ''#'' line" by (simp only: str_in_single) simp
    then show ?thesis by (rule loop_step_absent)
  next
    assume "fails_at ''#'' h1 line"
    then show ?thesis by (rule loop_step_fails) simp
  qed
  then show ?thesis by (simp only: strip_comment_def)
qed

section \<open>Escaping in the interpolated say\<close>

text \<open>
  What the two replacements of \<open>_say_f\<close> do to one character, and the line
  \<open>say: {d["k"]} is \n\<close> with the text that the compiler emits for it.
\<close>

definition escape_ch :: "char \<Rightarrow> string" where
  "escape_ch c = (if c = BS then [BS, BS] else if c = DQ then [BS, DQ] else [c])"

definition say_key :: string where
  "say_key = ''say: {d['' @ [DQ] @ ''k'' @ [DQ] @ '']} is '' @ [BS] @ ''n''"

definition say_key_inner :: string where
  "say_key_inner = ''{d['' @ [DQ] @ ''k'' @ [DQ] @ '']} is '' @ [BS] @ ''n''"

definition say_key_out :: string where
  "say_key_out = ''print(f'' @ [DQ] @ ''{d['' @ [BS, DQ] @ ''k'' @ [BS, DQ] @ '']} is '' @ [BS, BS] @ ''n'' @ [DQ] @ '')''"

lemma replace_single:
  "replace_str [c] new s = concat (map (\<lambda>x. if x = c then new else [x]) s)"
  by (induction s) (auto simp: startswith_def)

lemma escape_twice:
  "replace_str [DQ] [BS, DQ] (replace_str [BS] [BS, BS] s) = concat (map escape_ch s)"
proof -
  have "replace_str [DQ] [BS, DQ] (replace_str [BS] [BS, BS] s)
      = concat (map (\<lambda>x. if x = DQ then [BS, DQ] else [x])
          (concat (map (\<lambda>x. if x = BS then [BS, BS] else [x]) s)))"
    by (simp only: replace_single)
  also have "\<dots> = concat (map escape_ch s)"
    by (induction s) (simp_all add: escape_ch_def)
  finally show ?thesis .
qed

lemma re_say_f_shape:
  assumes "re_say_f (strip_comment (strip raw)) = Some inner"
  shows "shape_of raw = Emit (say_f_text inner)"
proof -
  let ?line = "strip_comment (strip raw)"
  from assms have len: "4 \<le> length ?line"
    unfolding re_say_f_def by (auto elim!: lit_ciE)
  then have ne: "?line \<noteq> []" by auto
  have "strip_comment [] = []" by (simp add: strip_comment_def)
  with ne have ne0: "strip raw \<noteq> []" by auto
  have "\<not> re_end ?line"
  proof
    assume "re_end ?line"
    then have "length (map lower_ch ?line) = length ''end''" by (simp add: re_end_def)
    with len show False by simp
  qed
  with ne ne0 assms show ?thesis by (simp add: shape_of_def Let_def)
qed

section \<open>The claims\<close>

subsection \<open>C1: the comparator phrases\<close>

text \<open>
  C1. The claim: \<open>not equals\<close> is rewritten to \<open>!=\<close>, because its rule is tried before the
  rule of \<open>equals\<close>. In \<open>COMPARATORS\<close> the rule of \<open>equals\<close> stands before the rule of
  \<open>not equals\<close>, so the phrase \<open>a not equals b\<close> is rewritten to \<open>a not == b\<close>: the
  mis-split that the claim excludes.
\<close>

theorem C1_not_equals_is_mis_split: "tx_expr ''a not equals b'' = ''a not == b''"
  by code_simp

subsection \<open>C3: the indent level is the height of the stack\<close>

text \<open>
  C3. From a compiler whose indent level is the length of its block stack, a call of
  \<open>_compile_line\<close> that returns leaves the indent level equal to the length of the block
  stack, for every line, through every recursive expansion of an inline conditional.
  Whether the call returns or raises, the indent level it leaves is not negative.
\<close>

theorem C3_indent_matches_stack:
  assumes "indent st = int (length (stack st))"
  shows "(fst (compile_line depth raw st) = None \<longrightarrow>
            indent (snd (compile_line depth raw st))
              = int (length (stack (snd (compile_line depth raw st)))))
         \<and> 0 \<le> indent (snd (compile_line depth raw st))"
  using assms
proof (induction raw arbitrary: st depth rule: measure_induct_rule [where f = length])
  case (less raw)
  show ?case
  proof (cases "shape_of raw")
    case Blank
    with less.prems show ?thesis by (simp add: compile_line_shape)
  next
    case End
    with less.prems show ?thesis by (cases "stack st") (simp_all add: compile_line_shape)
  next
    case (Emit out)
    with less.prems show ?thesis by (simp add: compile_line_shape)
  next
    case (Open_block kind header)
    with less.prems show ?thesis by (simp add: compile_line_shape)
  next
    case (IfThen header stmt)
    let ?st1 = "push_block ''if'' (emit header st)"
    show ?thesis
    proof (cases "depth = 0")
      case True
      with IfThen less.prems show ?thesis by (simp add: compile_line_shape)
    next
      case False
      obtain r st' where res: "compile_line (depth - 1) stmt ?st1 = (r, st')"
        by (cases "compile_line (depth - 1) stmt ?st1")
      have "length stmt < length raw" using IfThen by (rule shape_IfThen_shorter)
      moreover have "indent ?st1 = int (length (stack ?st1))" using less.prems by simp
      ultimately have ih: "(r = None \<longrightarrow> indent st' = int (length (stack st'))) \<and> 0 \<le> indent st'"
        using less.IH [of stmt ?st1 "depth - 1"] res by simp
      show ?thesis
      proof (cases r)
        case (Some e)
        with IfThen res ih False show ?thesis by (simp add: compile_line_shape)
      next
        case None
        with IfThen res ih False show ?thesis
          by (cases "stack st'") (simp_all add: compile_line_shape)
      qed
    qed
  qed
qed

theorem C3_indent_matches_stack_witness:
  "indent (new_compiler ''    '') = int (length (stack (new_compiler ''    '')))
   \<and> fst (compile_line 990 ''if x then if y'' (new_compiler ''    '')) = None
   \<and> indent (snd (compile_line 990 ''if x then if y'' (new_compiler ''    ''))) = 1
   \<and> stack (snd (compile_line 990 ''if x then if y'' (new_compiler ''    ''))) = [''if'']"
proof -
  have h: "indent (new_compiler ''    '') = int (length (stack (new_compiler ''    '')))"
    by (simp add: new_compiler_def)
  have r: "compile_line 990 ''if x then if y'' (new_compiler ''    '') =
      (None, \<lparr>indent_unit = ''    '', lines = [''if x:'', ''    if y:''], indent = 1, stack = [''if'']\<rparr>)"
    by code_simp
  show ?thesis
    using C3_indent_matches_stack [OF h, of 990 "''if x then if y''"] h by (simp add: r)
qed

subsection \<open>C2: the inline conditional\<close>

text \<open>
  C2, as amended. The claim: a line \<open>if <cond> then <stmt>\<close> leaves the block stack and
  the indent level as they were, for every nested statement. The nested statement is
  compiled by the same classifier between the push and the pop, so it may itself pop or
  push: \<open>if x then if y\<close> leaves one more block open than before.
\<close>

theorem C2_inline_if_nested_opener_counterexample:
  "shape_of ''if x then if y'' = IfThen ''if x:'' ''if y''
   \<and> stack (new_compiler ''    '') = [] \<and> indent (new_compiler ''    '') = 0
   \<and> fst (compile_line 990 ''if x then if y'' (new_compiler ''    '')) = None
   \<and> stack (snd (compile_line 990 ''if x then if y'' (new_compiler ''    ''))) = [''if'']
   \<and> indent (snd (compile_line 990 ''if x then if y'' (new_compiler ''    ''))) = 1"
  by code_simp

text \<open>
  A chain of inline conditionals longer than the interpreter admits ends in
  \<open>RecursionError\<close>, with the blocks of the conditionals entered so far left open: here
  the chain has two conditionals and one further activation is admitted.
\<close>

lemma chain_too_deep:
  "compile_line 1 ''if a then if b then say c'' (new_compiler ''    '') =
     (Some (RecursionError recursion_msg),
      \<lparr>indent_unit = ''    '', lines = [''if a:'', ''    if b:''], indent = 2,
       stack = [''if'', ''if'']\<rparr>)"
  by code_simp

text \<open>
  C2, the amended claim: a line \<open>if <cond> then <stmt>\<close> is compiled without an exception
  and leaves the block stack and the indent level as they were, whenever the statement at
  the end of the chain of inline conditionals of \<open><stmt>\<close> is neither an \<open>end\<close> nor the
  opening of a block, and the chain is no longer than the number of nested calls that the
  interpreter admits.
\<close>

theorem C2_inline_if_plain_statement:
  assumes "shape_of raw = IfThen header stmt" and "plain (innermost stmt)"
    and "inline_depth raw \<le> depth"
  shows "fst (compile_line depth raw st) = None
         \<and> stack (snd (compile_line depth raw st)) = stack st
         \<and> indent (snd (compile_line depth raw st)) = indent st"
proof -
  from assms(1,2) have "plain (innermost raw)" by simp
  then show ?thesis using assms(3) by (rule plain_line_keeps_blocks)
qed

theorem C2_inline_if_plain_statement_witness:
  "shape_of ''if x then say y'' = IfThen ''if x:'' ''say y''
   \<and> plain (innermost ''say y'')
   \<and> inline_depth ''if x then say y'' \<le> 1
   \<and> fst (compile_line 1 ''if x then say y'' (new_compiler ''    '')) = None
   \<and> stack (snd (compile_line 1 ''if x then say y'' (new_compiler ''    ''))) = []
   \<and> indent (snd (compile_line 1 ''if x then say y'' (new_compiler ''    ''))) = 0"
proof -
  have h1: "shape_of ''if x then say y'' = IfThen ''if x:'' ''say y''" by code_simp
  have h2: "plain (innermost ''say y'')" by code_simp
  have h3: "inline_depth ''if x then say y'' \<le> 1" by code_simp
  show ?thesis
    using C2_inline_if_plain_statement [OF h1 h2 h3, of "new_compiler ''    ''"] h1 h2 h3
    by (simp add: new_compiler_def)
qed

subsection \<open>C4: blocks left open\<close>

text \<open>
  C4, as amended. The claim: when blocks are left on the stack after the last line,
  \<open>compile\<close> raises an error whose message lists the kinds of the blocks still open,
  outermost first. The message lists the block stack, and the stack is not always the
  kinds of the blocks that the input left open: in \<open>if x then repeat 3 times\<close> the
  conditional is inline and the statement that opens a block is the \<open>repeat\<close>, whose
  header is the last line emitted; the \<open>pop\<close> of the inline conditional removes the
  \<open>repeat\<close> from the stack, and the message names \<open>if\<close>.
\<close>

theorem C4_inline_opener_counterexample:
  "innermost ''if x then repeat 3 times'' = Open_block ''repeat'' ''for _ in range(int(3)):''
   \<and> open_blocks [] (splitlines ''if x then repeat 3 times'') = []
   \<and> lines (snd (compile 990 (new_compiler ''    '') ''if x then repeat 3 times'' None))
       = [''if x:'', ''    for _ in range(int(3)):'']
   \<and> stack (snd (compile 990 (new_compiler ''    '') ''if x then repeat 3 times'' None))
       = [''if'']
   \<and> fst (compile 990 (new_compiler ''    '') ''if x then repeat 3 times'' None)
       = Inl (SyntaxError (missing_end_msg @ ''if''))"
  by code_simp

text \<open>
  C4, the amended claim: when the loop over the lines of the input returns and the block
  stack is not empty, \<open>compile\<close> returns no text: it raises the \<open>SyntaxError\<close> whose
  message is \<open>Missing 'end' for: \<close> followed by the kinds on the stack, from the bottom,
  joined by \<open> > \<close>. When no inline conditional of the input has an \<open>end\<close> or the opening
  of a block as its innermost statement, the stack holds the kinds of the lines that
  opened a block and were not closed by a later \<open>end\<close> line, in the order of those
  lines: the message lists the blocks still open, outermost first.
\<close>

theorem C4_missing_end:
  assumes "run_lines depth filename 1 (splitlines source)
             (self\<lparr>lines := [], indent := 0, stack := []\<rparr>) = (None, st)"
    and "stack st \<noteq> []"
  shows "fst (compile depth self source filename) =
           Inl (SyntaxError (missing_end_msg @ join_str '' > '' (stack st)))
         \<and> (list_all inline_plain (splitlines source) \<longrightarrow>
              stack st = open_blocks [] (splitlines source)
              \<and> fst (compile depth self source filename) =
                  Inl (SyntaxError (missing_end_msg
                         @ join_str '' > '' (open_blocks [] (splitlines source)))))"
proof -
  have msg: "fst (compile depth self source filename) =
           Inl (SyntaxError (missing_end_msg @ join_str '' > '' (stack st)))"
    using assms by (simp add: compile_def)
  have "stack st = open_blocks [] (splitlines source)"
    if "list_all inline_plain (splitlines source)"
    using run_lines_open_blocks [OF assms(1) that] by simp
  with msg show ?thesis by simp
qed

theorem C4_missing_end_witness:
  "run_lines 990 None 1 (splitlines three_open)
       ((new_compiler ''    '')\<lparr>lines := [], indent := 0, stack := []\<rparr>)
     = (None, \<lparr>indent_unit = ''    '',
               lines = [''def f():'', ''    if x:'', ''        print(1)'',
                        ''    for _ in range(int(3)):'', ''        if y:''],
               indent = 3, stack = [''def'', ''repeat'', ''if'']\<rparr>)
   \<and> list_all inline_plain (splitlines three_open)
   \<and> open_blocks [] (splitlines three_open) = [''def'', ''repeat'', ''if'']
   \<and> fst (compile 990 (new_compiler ''    '') three_open None)
     = Inl (SyntaxError (missing_end_msg @ ''def > repeat > if''))"
proof -
  have h: "run_lines 990 None 1 (splitlines three_open)
       ((new_compiler ''    '')\<lparr>lines := [], indent := 0, stack := []\<rparr>)
     = (None, \<lparr>indent_unit = ''    '',
               lines = [''def f():'', ''    if x:'', ''        print(1)'',
                        ''    for _ in range(int(3)):'', ''        if y:''],
               indent = 3, stack = [''def'', ''repeat'', ''if'']\<rparr>)"
    by code_simp
  have p: "list_all inline_plain (splitlines three_open)" by code_simp
  have o: "open_blocks [] (splitlines three_open) = [''def'', ''repeat'', ''if'']" by code_simp
  show ?thesis using C4_missing_end [OF h] h p o by simp
qed

subsection \<open>C5: an end with no open block\<close>

text \<open>
  C5. When the lines before a line are compiled without an exception and leave no block
  open, and the line, trimmed and without its comment, is \<open>end\<close> in any case of letters,
  \<open>compile\<close> raises the \<open>SyntaxError\<close> whose message is \<open>'end' with no open block\<close>
  followed by \<open> (at <label>:<n>)\<close>, where \<open>n\<close> is the number of the line, counted from 1,
  and the label is the file name given, or \<open><string>\<close> when none or an empty one is given.
\<close>

theorem C5_unexpected_end:
  assumes "splitlines source = pre @ raw # post"
    and "run_lines depth filename 1 pre (self\<lparr>lines := [], indent := 0, stack := []\<rparr>) = (None, st)"
    and "stack st = []"
    and "re_end (strip_comment (strip raw))"
  shows "fst (compile depth self source filename) =
           Inl (SyntaxError (unexpected_end_msg @ '' (at '' @ filename_label filename @ '':''
                               @ str_nat (length pre + 1) @ '')''))"
proof -
  have "shape_of raw = End" using assms(4) by (rule re_end_shape)
  with assms(3) have "compile_line depth raw st = (Some (SyntaxError unexpected_end_msg), st)"
    by (simp add: compile_line_shape)
  then have "run_lines depth filename (1 + length pre) (raw # post) st =
      (Some (decorate (SyntaxError unexpected_end_msg) (where_label filename (1 + length pre))), st)"
    by simp
  with assms(1,2) have "run_lines depth filename 1 (splitlines source)
        (self\<lparr>lines := [], indent := 0, stack := []\<rparr>) =
      (Some (decorate (SyntaxError unexpected_end_msg) (where_label filename (1 + length pre))), st)"
    by (simp add: run_lines_append)
  then show ?thesis by (simp add: compile_def where_label_def)
qed

theorem C5_unexpected_end_witness:
  "splitlines (''say 1'' @ [NL] @ '' END  # done'' @ [NL] @ ''say 2'') = [''say 1''] @ '' END  # done'' # [''say 2'']
   \<and> run_lines 990 (Some ''prog.monthy'') 1 [''say 1''] ((new_compiler ''    '')\<lparr>lines := [], indent := 0, stack := []\<rparr>)
       = (None, \<lparr>indent_unit = ''    '', lines = [''print(1)''], indent = 0, stack = []\<rparr>)
   \<and> re_end (strip_comment (strip '' END  # done''))
   \<and> fst (compile 990 (new_compiler ''    '') (''say 1'' @ [NL] @ '' END  # done'' @ [NL] @ ''say 2'') (Some ''prog.monthy''))
       = Inl (SyntaxError (unexpected_end_msg @ '' (at prog.monthy:2)''))"
proof -
  have h1: "splitlines (''say 1'' @ [NL] @ '' END  # done'' @ [NL] @ ''say 2'')
      = [''say 1''] @ '' END  # done'' # [''say 2'']"
    by code_simp
  have h2: "run_lines 990 (Some ''prog.monthy'') 1 [''say 1''] ((new_compiler ''    '')\<lparr>lines := [], indent := 0, stack := []\<rparr>)
       = (None, \<lparr>indent_unit = ''    '', lines = [''print(1)''], indent = 0, stack = []\<rparr>)"
    by code_simp
  have h3: "stack \<lparr>indent_unit = ''    '', lines = [''print(1)''], indent = 0, stack = []\<rparr> = []"
    by simp
  have h4: "re_end (strip_comment (strip '' END  # done''))" by code_simp
  have l: "filename_label (Some ''prog.monthy'') @ '':'' @ str_nat (length [''say 1''] + 1) = ''prog.monthy:2''"
    by code_simp
  show ?thesis
    using C5_unexpected_end [OF h1 h2 h3 h4] h1 h2 h4 l by simp
qed

subsection \<open>C6: inputs whose blocks are closed\<close>

text \<open>
  C6, as amended. The claim: when every line that opens a block has its matching \<open>end\<close>
  line, \<open>compile\<close> raises nothing and the final indent level is 0. An inline conditional
  whose statement is \<open>end\<close> closes the block around it, or finds none to close: in
  \<open>def f / if x then end / end\<close> the \<open>def\<close> has its \<open>end\<close> line and \<open>compile\<close> raises
  at line 3, and \<open>if x then end\<close>, which opens no block, raises \<open>IndexError\<close>.
\<close>

theorem C6_inline_end_counterexample:
  "well_nested 0 (splitlines stray_inline_end)
   \<and> fst (compile 990 (new_compiler ''    '') stray_inline_end None)
       = Inl (SyntaxError (unexpected_end_msg @ '' (at <string>:3)''))
   \<and> well_nested 0 (splitlines ''if x then end'')
   \<and> fst (compile 990 (new_compiler ''    '') ''if x then end'' None)
       = Inl (IndexError ''pop from empty list (at <string>:1)'')"
  by code_simp

text \<open>
  C6, the amended claim: when the lines that open a block and the \<open>end\<close> lines of the
  input match, no inline conditional of the input has an \<open>end\<close> or the opening of a
  block as its innermost statement, and no line has a chain of inline conditionals
  longer than the number of nested calls that the interpreter admits, \<open>compile\<close> returns
  a text, and it leaves the indent level 0 and the block stack empty.
\<close>

theorem C6_balanced_input_compiles:
  assumes "well_nested 0 (splitlines source)" and "list_all inline_plain (splitlines source)"
    and "list_all (\<lambda>raw. inline_depth raw \<le> depth) (splitlines source)"
  shows "(\<exists>out. fst (compile depth self source filename) = Inr out)
         \<and> indent (snd (compile depth self source filename)) = 0
         \<and> stack (snd (compile depth self source filename)) = []"
proof -
  let ?st0 = "self\<lparr>lines := [], indent := 0, stack := []\<rparr>"
  have "well_nested (length (stack ?st0)) (splitlines source)" using assms(1) by simp
  moreover have "indent ?st0 = int (length (stack ?st0))" by simp
  ultimately obtain st' where "run_lines depth filename 1 (splitlines source) ?st0 = (None, st')"
      "stack st' = []" "indent st' = 0"
    using run_lines_well_nested [of ?st0 "splitlines source" depth filename 1] assms(2,3) by blast
  then show ?thesis by (simp add: compile_def)
qed

theorem C6_balanced_input_compiles_witness:
  "well_nested 0 (splitlines balanced_example)
   \<and> list_all inline_plain (splitlines balanced_example)
   \<and> list_all (\<lambda>raw. inline_depth raw \<le> 1) (splitlines balanced_example)
   \<and> fst (compile 1 (new_compiler ''    '') balanced_example None)
       = Inr (''def f(x):'' @ [NL] @ ''    if x:'' @ [NL] @ ''        print(x)'' @ [NL])
   \<and> indent (snd (compile 1 (new_compiler ''    '') balanced_example None)) = 0"
proof -
  have h1: "well_nested 0 (splitlines balanced_example)" by code_simp
  have h2: "list_all inline_plain (splitlines balanced_example)" by code_simp
  have h3: "list_all (\<lambda>raw. inline_depth raw \<le> 1) (splitlines balanced_example)" by code_simp
  have r: "fst (compile 1 (new_compiler ''    '') balanced_example None)
       = Inr (''def f(x):'' @ [NL] @ ''    if x:'' @ [NL] @ ''        print(x)'' @ [NL])"
    by code_simp
  show ?thesis
    using C6_balanced_input_compiles [OF h1 h2 h3, of "new_compiler ''    ''" None] h1 h2 h3 r
    by simp
qed

subsection \<open>C9: a compiler is reset by each call\<close>

text \<open>
  C9. A call of \<open>compile\<close> on a compiler that has compiled another input before, with or
  without an exception, gives the result (and leaves the compiler in the state) of the
  same call on a new compiler with the same indent unit.
\<close>

theorem C9_compile_resets_state:
  "compile depth2 (snd (compile depth1 self source1 filename1)) source2 filename2
     = compile depth2 (new_compiler (indent_unit self)) source2 filename2"
  using compile_from_new [of depth2 "snd (compile depth1 self source1 filename1)" source2 filename2]
  by (simp only: compile_indent_unit)

subsection \<open>C7: comment markers and quotes\<close>

text \<open>
  C7. When the comment stripper changes a line, it has cut the line at a marker \<open>#\<close> or
  \<open>//\<close> before which the line holds an even number of double quotes and an even number
  of single quotes, and the result is the text before the marker, right-trimmed. The line
  \<open>say "a # b"\<close> is returned as it is, and \<open>say x # comment\<close> becomes \<open>say x\<close>.
\<close>

theorem C7_comment_only_at_even_quotes:
  "(strip_comment line \<noteq> line \<longrightarrow>
      (\<exists>tok head tail. (tok = ''#'' \<or> tok = ''//'') \<and> line = head @ tok @ tail
          \<and> even (count_list head DQ) \<and> even (count_list head SQ)
          \<and> strip_comment line = rstrip head))
   \<and> strip_comment quoted_hash = quoted_hash
   \<and> strip_comment ''say x # comment'' = ''say x''"
proof (intro conjI impI)
  assume "strip_comment line \<noteq> line"
  then have "strip_comment_loop [''#'', ''//''] line \<noteq> line" unfolding strip_comment_def .
  from strip_comment_loop_cases [OF this] obtain tok head tail where
    "tok \<in> set [''#'', ''//'']" "line = head @ tok @ tail"
    "even (count_list head DQ)" "even (count_list head SQ)"
    "strip_comment_loop [''#'', ''//''] line = rstrip head"
    by blast
  then have "(tok = ''#'' \<or> tok = ''//'') \<and> line = head @ tok @ tail
          \<and> even (count_list head DQ) \<and> even (count_list head SQ)
          \<and> strip_comment line = rstrip head"
    by (simp add: strip_comment_def)
  then show "\<exists>tok head tail. (tok = ''#'' \<or> tok = ''//'') \<and> line = head @ tok @ tail
          \<and> even (count_list head DQ) \<and> even (count_list head SQ)
          \<and> strip_comment line = rstrip head"
    by blast
next
  show "strip_comment quoted_hash = quoted_hash" by code_simp
next
  show "strip_comment ''say x # comment'' = ''say x''" by code_simp
qed

theorem C7_comment_only_at_even_quotes_witness:
  "strip_comment ''say x # comment'' \<noteq> ''say x # comment''
   \<and> (\<exists>tok head tail. (tok = ''#'' \<or> tok = ''//'') \<and> ''say x # comment'' = head @ tok @ tail
          \<and> even (count_list head DQ) \<and> even (count_list head SQ)
          \<and> strip_comment ''say x # comment'' = rstrip head)"
proof -
  have h: "strip_comment ''say x # comment'' \<noteq> ''say x # comment''" by code_simp
  from C7_comment_only_at_even_quotes [of "''say x # comment''"] h show ?thesis by blast
qed

subsection \<open>C10: only the first occurrence of a marker counts\<close>

text \<open>
  C10, as amended. The claim: when the first occurrence of a marker fails the parity
  test, no later occurrence of it starts a comment and the line goes on to the
  classifier with its comment text. After a first \<open>#\<close> that fails, the marker \<open>//\<close> is
  still tried: in \<open>say "a # b" // c # d\<close> the first \<open>#\<close> stands after one double quote
  and fails, and the line is cut at the \<open>//\<close>, the later \<open># d\<close> with it.
\<close>

theorem C10_cut_at_other_marker_counterexample:
  "fails_at ''#'' (''say '' @ [DQ] @ ''a '') hash_then_slashes
   \<and> strip_comment hash_then_slashes = ''say '' @ [DQ] @ ''a # b'' @ [DQ]
   \<and> strip_comment hash_then_slashes \<noteq> hash_then_slashes"
  by code_simp

text \<open>
  C10, the amended claim: of each marker the comment stripper looks at the first
  occurrence only, and after a first occurrence that fails the parity test no later
  occurrence of that marker starts a comment. When the line has no \<open>#\<close> or its first \<open>#\<close>
  fails the test, the first \<open>//\<close> alone decides: the line is returned as it is when it
  has no \<open>//\<close> or its first \<open>//\<close> fails the test too, and it is cut at its first \<open>//\<close>
  when that one passes the test. In the statement \<open>h1\<close> is the text before the first
  \<open>#\<close> and \<open>h2\<close> the text before the first \<open>//\<close>.
\<close>

theorem C10_only_first_occurrence:
  "(fails_at ''#'' h1 line \<and> \<not> str_in ''//'' line \<longrightarrow> strip_comment line = line)
   \<and> ((CHR ''#'' \<notin> set line \<or> fails_at ''#'' h1 line) \<and> fails_at ''//'' h2 line
        \<longrightarrow> strip_comment line = line)
   \<and> ((CHR ''#'' \<notin> set line \<or> fails_at ''#'' h1 line)
        \<and> first_at ''//'' h2 line \<and> quotes_closed h2
        \<longrightarrow> strip_comment line = rstrip h2)"
proof (intro conjI impI)
  assume a: "fails_at ''#'' h1 line \<and> \<not> str_in ''//'' line"
  then have "CHR ''#'' \<notin> set line \<or> fails_at ''#'' h1 line" by simp
  then have "strip_comment line = strip_comment_loop [''//''] line" by (rule hash_step)
  also from a have "\<dots> = strip_comment_loop [] line" by (simp add: loop_step_absent)
  finally show "strip_comment line = line" by simp
next
  assume a: "(CHR ''#'' \<notin> set line \<or> fails_at ''#'' h1 line) \<and> fails_at ''//'' h2 line"
  then have "CHR ''#'' \<notin> set line \<or> fails_at ''#'' h1 line" by simp
  then have "strip_comment line = strip_comment_loop [''//''] line" by (rule hash_step)
  also have "\<dots> = strip_comment_loop [] line"
  proof (rule loop_step_fails)
    from a show "fails_at ''//'' h2 line" by simp
    show "''//'' \<noteq> []" by simp
  qed
  finally show "strip_comment line = line" by simp
next
  assume a: "(CHR ''#'' \<notin> set line \<or> fails_at ''#'' h1 line)
        \<and> first_at ''//'' h2 line \<and> quotes_closed h2"
  then have "CHR ''#'' \<notin> set line \<or> fails_at ''#'' h1 line" by simp
  then have "strip_comment line = strip_comment_loop [''//''] line" by (rule hash_step)
  also have "\<dots> = rstrip h2"
  proof (rule loop_step_passes)
    from a show "first_at ''//'' h2 line" by simp
    from a show "quotes_closed h2" by simp
    show "''//'' \<noteq> []" by simp
  qed
  finally show "strip_comment line = rstrip h2" .
qed

theorem C10_only_first_occurrence_witness:
  "fails_at ''#'' (''say '' @ [DQ] @ ''a '') later_hash
   \<and> \<not> str_in ''//'' later_hash
   \<and> quotes_closed (''say '' @ [DQ] @ ''a # b'' @ [DQ] @ '' '')
   \<and> startswith ((''say '' @ [DQ] @ ''a # b'' @ [DQ] @ '' '') @ ''#'') later_hash
   \<and> strip_comment later_hash = later_hash"
proof -
  have h1: "fails_at ''#'' (''say '' @ [DQ] @ ''a '') later_hash" by code_simp
  have h2: "\<not> str_in ''//'' later_hash" by code_simp
  have h3: "quotes_closed (''say '' @ [DQ] @ ''a # b'' @ [DQ] @ '' '')" by code_simp
  have h4: "startswith ((''say '' @ [DQ] @ ''a # b'' @ [DQ] @ '' '') @ ''#'') later_hash" by code_simp
  from C10_only_first_occurrence [of "''say '' @ [DQ] @ ''a ''" later_hash] h1 h2
  have "strip_comment later_hash = later_hash" by blast
  with h1 h2 h3 h4 show ?thesis by blast
qed

subsection \<open>C8: the interpolated say\<close>

text \<open>
  C8, as amended. The claim: in the statement emitted for \<open>say: <text>\<close> the braces and
  the expressions between them appear verbatim, and every backslash and double quote of
  the text is escaped once. The two replacements run over the whole rewritten text, the
  expressions between braces included: the expression \<open>{d["k"]}\<close> is emitted as
  \<open>{d[\"k\"]}\<close>, so it does not appear verbatim.
\<close>

theorem C8_embedded_expression_counterexample:
  "re_say_f (strip_comment (strip say_key)) = Some say_key_inner
   \<and> lines (snd (compile_line 990 say_key (new_compiler ''    ''))) = [say_key_out]
   \<and> str_in (''{d['' @ [DQ] @ ''k'' @ [DQ] @ '']}'') say_key_inner
   \<and> \<not> str_in (''{d['' @ [DQ] @ ''k'' @ [DQ] @ '']}'') say_key_out"
  by code_simp

text \<open>
  C8, the amended claim: for a line \<open>say: <text>\<close> the compiler emits, at the current
  indent, \<open>print(f"\<close>, the rewritten text with every backslash doubled and a backslash
  before every double quote, inside braces as well as outside, and every other character
  (the braces too) as it is, and then \<open>")\<close>. It raises nothing and changes nothing else.
\<close>

theorem C8_say_f_escapes_every_quote:
  assumes "re_say_f (strip_comment (strip raw)) = Some inner"
  shows "compile_line depth raw st =
     (None, st\<lparr>lines := lines st @
        [concat (replicate (nat (indent st)) (indent_unit st))
         @ ''print(f'' @ [DQ] @ concat (map escape_ch (tx_expr inner)) @ [DQ] @ '')'']\<rparr>)"
proof -
  have "shape_of raw = Emit (say_f_text inner)" using assms by (rule re_say_f_shape)
  then show ?thesis
    by (simp add: compile_line_shape say_f_text_def emit_def escape_twice)
qed

theorem C8_say_f_escapes_every_quote_witness:
  "re_say_f (strip_comment (strip say_key)) = Some say_key_inner
   \<and> compile_line 990 say_key (new_compiler ''    '')
       = (None, \<lparr>indent_unit = ''    '', lines = [say_key_out], indent = 0, stack = []\<rparr>)"
proof -
  have h: "re_say_f (strip_comment (strip say_key)) = Some say_key_inner"
    by code_simp
  have e: "''print(f'' @ [DQ] @ concat (map escape_ch (tx_expr say_key_inner)) @ [DQ] @ '')'' = say_key_out"
    by code_simp
  show ?thesis
    using C8_say_f_escapes_every_quote [OF h, of 990 "new_compiler ''    ''"] h e
    by (simp add: new_compiler_def)
qed

end
